theory Spec2Isabelle
  imports Main
begin

section \<open>Data model of the tracing Turing-machine simulator\<close>

text \<open>
  The simulator keeps every piece of data as a Python string: the two halves of the tape,
  the state labels, the symbol written by a rule and its direction. A configuration is the
  tuple (left, state, right). The transition table is a dict from (state, read symbol) to
  the list of rules (next state, write, direction) in the order of the machine file.
\<close>

type_synonym config = "string \<times> string \<times> string"
type_synonym rule = "string \<times> string \<times> string"
type_synonym table = "string \<times> string \<Rightarrow> rule list option"
type_synonym parents = "config \<Rightarrow> config option"

text \<open>Indexing an empty string (\<^verbatim>\<open>right[0]\<close>) raises; it is the only exception of the engine.\<close>

datatype error = IndexError

definition state_of :: "config \<Rightarrow> string" where
  "state_of c = fst (snd c)"

section \<open>The tape move\<close>

text \<open>
  The first statement of \<^verbatim>\<open>move\<close>: the cell under the head is overwritten, and an empty
  right half becomes the written string.
\<close>

definition write_cell :: "string \<Rightarrow> string \<Rightarrow> string" where
  "write_cell right write_char = (if right = [] then write_char else write_char @ drop 1 right)"

text \<open>
  The head movement. Every direction other than the string R is a move to the left, as in
  the source's \<^verbatim>\<open>else\<close>. In the branch for R with one cell or none, \<^verbatim>\<open>right[0]\<close> raises when
  the written right half is empty.
\<close>

definition shift_head :: "string \<Rightarrow> string \<Rightarrow> string \<Rightarrow> error + (string \<times> string)" where
  "shift_head left right direction =
     (if direction = ''R'' then
        (if length right > 1 then Inr (left @ [hd right], drop 1 right)
         else if right = [] then Inl IndexError
         else Inr (left @ [hd right], ''_''))
      else
        (if left \<noteq> [] then
           (if right = [] \<or> right = ''_'' then Inr (left, ''_'')
            else Inr (butlast left, last left # right))
         else Inr (left, ''_'' @ right)))"

definition move :: "string \<Rightarrow> string \<Rightarrow> string \<Rightarrow> string \<Rightarrow> error + (string \<times> string)" where
  "move left right write_char direction = shift_head left (write_cell right write_char) direction"

section \<open>Path reconstruction\<close>

text \<open>
  The loop of \<^verbatim>\<open>trace\<close> follows parent links for as long as the current configuration is a
  key of the parent dict. Nothing bounds it, so it is a partial function: the value None is
  a loop that never ends.
\<close>

partial_function (option) trace_loop :: "config \<Rightarrow> parents \<Rightarrow> config list \<Rightarrow> config list option" where
  "trace_loop transition parent path =
     (case parent transition of
        None \<Rightarrow> Some path
      | Some p \<Rightarrow> trace_loop p parent (path @ [p]))"

declare trace_loop.simps [code]

definition trace :: "config \<Rightarrow> parents \<Rightarrow> config list option" where
  "trace transition parent = map_option rev (trace_loop transition parent [transition])"

section \<open>Breadth-first search\<close>

text \<open>
  While one level is scanned the search changes three things: the next level
  \<^verbatim>\<open>queue[depth + 1]\<close>, the parent dict \<^verbatim>\<open>before\<close> and the counter \<^verbatim>\<open>total\<close>.
  Both places that produce a successor run the same three statements, collected in
  \<open>enqueue\<close>.
\<close>

type_synonym bstate = "config list \<times> parents \<times> int"

definition enqueue :: "config \<Rightarrow> config \<Rightarrow> bstate \<Rightarrow> bstate" where
  "enqueue transition next_transition st =
     (case st of (nxt, before, tot) \<Rightarrow>
        (nxt @ [next_transition], before(next_transition \<mapsto> transition), tot + 1))"

text \<open>The loop over the rules found for the configuration under expansion.\<close>

fun use_moves :: "config \<Rightarrow> rule list \<Rightarrow> bstate \<Rightarrow> error + bstate" where
  "use_moves transition [] st = Inr st"
| "use_moves transition ((next_state, write, direction) # moves) st =
     (case move (fst transition) (snd (snd transition)) write direction of
        Inl e \<Rightarrow> Inl e
      | Inr (new_left, new_right) \<Rightarrow>
          use_moves transition moves (enqueue transition (new_left, next_state, new_right) st))"

text \<open>
  The body of the scan for one configuration that is neither accepting nor rejecting:
  read the head symbol (a blank when the right half is empty), look the rules up with the
  default of the empty list, and either enqueue the implicit rejection or run the rules.
\<close>

definition curr_symbol :: "string \<Rightarrow> string" where
  "curr_symbol right = (if right \<noteq> [] then [hd right] else ''_'')"

definition lookup_moves :: "table \<Rightarrow> string \<Rightarrow> string \<Rightarrow> rule list" where
  "lookup_moves transitions state symbol =
     (case transitions (state, symbol) of None \<Rightarrow> [] | Some ms \<Rightarrow> ms)"

definition expand :: "string \<Rightarrow> table \<Rightarrow> config \<Rightarrow> bstate \<Rightarrow> error + bstate" where
  "expand reject transitions transition st =
     (case transition of (left, state, right) \<Rightarrow>
        (let moves = lookup_moves transitions state (curr_symbol right) in
         if moves = [] then Inr (enqueue transition (left, reject, right) st)
         else use_moves transition moves st))"

text \<open>
  The scan of one level either stops at the first accepting configuration, with the parent
  dict and the counter of that moment, or runs through the whole level.
\<close>

datatype scan = Accepting config parents int | Completed bstate

fun scan_level :: "string list \<Rightarrow> string \<Rightarrow> table \<Rightarrow> config list \<Rightarrow> bstate \<Rightarrow> error + scan" where
  "scan_level accept reject transitions [] st = Inr (Completed st)"
| "scan_level accept reject transitions (transition # rest) st =
     (if state_of transition \<in> set accept then
        Inr (Accepting transition (fst (snd st)) (snd (snd st)))
      else if state_of transition = reject then
        scan_level accept reject transitions rest st
      else
        (case expand reject transitions transition st of
           Inl e \<Rightarrow> Inl e
         | Inr st' \<Rightarrow> scan_level accept reject transitions rest st'))"

text \<open>
  The result tuple of \<^verbatim>\<open>bfs\<close>: accepted or not, depth, total transitions, path. A run
  returns a result, raises, or (inside \<^verbatim>\<open>trace\<close>) never returns: the outer option is None
  for the last.

  The loop over \<^verbatim>\<open>range(max_steps)\<close> runs \<open>nat max_steps\<close> times, counted down by the
  first numeric argument; \<open>depth\<close> counts up. The source appends an empty list to the queue
  and then appends the successors to it through \<^verbatim>\<open>queue[depth + 1]\<close>; here the new level
  is accumulated by the scan and appended to the queue when the scan is over, which is the
  same list since nothing reads the queue in between.
\<close>

type_synonym result = "bool \<times> int \<times> int \<times> config list"

fun bfs_loop :: "string list \<Rightarrow> string \<Rightarrow> table \<Rightarrow> int \<Rightarrow> nat \<Rightarrow> nat \<Rightarrow>
    config list list \<Rightarrow> parents \<Rightarrow> int \<Rightarrow> (error + result) option" where
  "bfs_loop accept reject transitions max_steps 0 depth queue before tot =
     Some (Inr (False, max_steps, tot, []))"
| "bfs_loop accept reject transitions max_steps (Suc n) depth queue before tot =
     (if queue ! depth = [] then Some (Inr (False, int depth, tot, []))
      else
        (case scan_level accept reject transitions (queue ! depth) ([], before, tot) of
           Inl e \<Rightarrow> Some (Inl e)
         | Inr (Accepting transition before' tot') \<Rightarrow>
             map_option (\<lambda>path. Inr (True, int depth, tot', path)) (trace transition before')
         | Inr (Completed (nxt, before', tot')) \<Rightarrow>
             bfs_loop accept reject transitions max_steps n (Suc depth) (queue @ [nxt]) before' tot'))"

definition initial_queue :: "string \<Rightarrow> string \<Rightarrow> config list list" where
  "initial_queue start input = [[([], start, input)]]"

definition bfs :: "string \<Rightarrow> string list \<Rightarrow> string \<Rightarrow> table \<Rightarrow> string \<Rightarrow> int \<Rightarrow> (error + result) option" where
  "bfs start accept reject transitions input max_steps =
     bfs_loop accept reject transitions max_steps (nat max_steps) 0
       (initial_queue start input) Map.empty 0"

section \<open>The tree of configurations, level by level\<close>

text \<open>
  The level structure that the claims about depth speak of. The next level of a frontier is
  what the scan of the source enqueues for it when no state is accepting, so that the scan
  runs through the whole frontier; the levels of a run start from the initial
  configuration. A level is an error when building it raises.
\<close>

definition next_frontier :: "string \<Rightarrow> table \<Rightarrow> config list \<Rightarrow> error + config list" where
  "next_frontier reject transitions fr =
     (case scan_level [] reject transitions fr ([], Map.empty, 0) of
        Inl e \<Rightarrow> Inl e
      | Inr (Accepting c b t) \<Rightarrow> Inr []
      | Inr (Completed st) \<Rightarrow> Inr (fst st))"

fun frontier :: "string \<Rightarrow> string \<Rightarrow> table \<Rightarrow> string \<Rightarrow> nat \<Rightarrow> error + config list" where
  "frontier start reject transitions input 0 = Inr (hd (initial_queue start input))"
| "frontier start reject transitions input (Suc k) =
     (case frontier start reject transitions input k of
        Inl e \<Rightarrow> Inl e
      | Inr fr \<Rightarrow> next_frontier reject transitions fr)"

text \<open>The first configuration of a frontier, in enqueue order, whose state is accepting.\<close>

definition first_accepting :: "string list \<Rightarrow> config list \<Rightarrow> config option" where
  "first_accepting accept fr = find (\<lambda>c. state_of c \<in> set accept) fr"

section \<open>Two machines used as concrete inputs\<close>

text \<open>
  The tables that \<^verbatim>\<open>read_file\<close> builds for two machine files. The first machine reaches
  the configuration (a, x, b) directly and again by a detour of three steps; the second
  returns to its initial configuration after two steps and accepts on another branch.
\<close>

definition detour_table :: table where
  "detour_table = map_of
     [((''s'', ''a''), [(''z'', ''a'', ''R''), (''x'', ''a'', ''R'')]),
      ((''z'', ''b''), [(''y'', ''b'', ''L'')]),
      ((''y'', ''a''), [(''x'', ''a'', ''R'')]),
      ((''x'', ''b''), [(''acc'', ''b'', ''R'')])]"

definition cycle_table :: table where
  "cycle_table = map_of
     [((''q0'', ''a''), [(''q1'', ''a'', ''R'')]),
      ((''q1'', ''b''), [(''q0'', ''b'', ''L''), (''qacc'', ''b'', ''R'')])]"

section \<open>The tape move: claims C4 and C6\<close>

text \<open>
  C4. A move to the left with a non-empty left half: when the right half after the write is
  empty or is the lone blank, the right half becomes a single blank and the left half is
  kept as it is; otherwise the last element of the left half is put in front of the right
  half and dropped from the left half.
\<close>

theorem move_left_collapse:
  assumes "direction \<noteq> ''R''" and "left \<noteq> []"
  shows "move left right write_char direction =
     (if write_cell right write_char = [] \<or> write_cell right write_char = ''_''
      then Inr (left, ''_'')
      else Inr (butlast left, last left # write_cell right write_char))"
  using assms by (simp add: move_def shift_head_def)

theorem move_left_collapse_witness:
  "''L'' \<noteq> ''R'' \<and> ''ab'' \<noteq> [] \<and>
   move ''ab'' ''c'' ''x'' ''L'' = Inr (''a'', ''bx'') \<and>
   move ''ab'' ''c'' ''_'' ''L'' = Inr (''ab'', ''_'')"
  using move_left_collapse [of "''L''" "''ab''" "''c''" "''x''"]
    move_left_collapse [of "''L''" "''ab''" "''c''" "''_''"]
  by (simp add: write_cell_def)

lemma write_cell_length:
  "length write_char = 1 \<Longrightarrow>
     write_cell right write_char \<noteq> [] \<and>
     length (write_cell right write_char) = (if right = [] then 1 else length right)"
  by (cases right) (auto simp: write_cell_def)

lemma shift_head_bound:
  assumes "right \<noteq> []"
  shows "\<exists>l r. shift_head left right direction = Inr (l, r) \<and> r \<noteq> [] \<and>
           length l + length r \<le> length left + length right + 1"
  using assms by (cases right) (auto simp: shift_head_def)

text \<open>
  C6, as stated, fails on the empty right half: writing into it adds a cell, and the move
  to the right then materialises a blank, so the tape grows by two elements.
\<close>

theorem move_growth_counterexample:
  "move [] [] ''a'' ''R'' = Inr (''a'', ''_'') \<and>
   \<not> length ''a'' + length ''_'' \<le> length ([]::string) + length ([]::string) + 1"
  by (simp add: move_def shift_head_def write_cell_def)

text \<open>
  C6, amended. For every tape, every write symbol of one character and every direction,
  the move returns a tape, the resulting right half is not empty, and the combined length
  grows by at most one element when the right half was not empty, by at most two when it
  was.
\<close>

theorem move_total_bounded:
  assumes "length write_char = 1"
  shows "\<exists>l r. move left right write_char direction = Inr (l, r) \<and> r \<noteq> [] \<and>
           length l + length r \<le> length left + length right + (if right = [] then 2 else 1)"
proof -
  from write_cell_length [OF assms, of right]
  have ne: "write_cell right write_char \<noteq> []"
    and len: "length (write_cell right write_char) = (if right = [] then 1 else length right)"
    by simp_all
  from shift_head_bound [OF ne, of left direction] obtain l r where
    "shift_head left (write_cell right write_char) direction = Inr (l, r)" "r \<noteq> []"
    "length l + length r \<le> length left + length (write_cell right write_char) + 1"
    by blast
  with len show ?thesis by (auto simp: move_def)
qed

theorem move_total_bounded_witness:
  "length ''x'' = 1 \<and> move ''ab'' ''cd'' ''x'' ''R'' = Inr (''abx'', ''d'')"
  using move_total_bounded [of "''x''" "''ab''" "''cd''" "''R''"]
  by (simp add: move_def shift_head_def write_cell_def)

section \<open>The start of a run: claims C7 and C8\<close>

text \<open>
  C7, as stated, fails on the empty input: the right half of the initial configuration is
  the empty string, not a blank.
\<close>

theorem initial_queue_counterexample:
  "initial_queue ''q0'' [] = [[([], ''q0'', [])]] \<and> ([]::string) \<noteq> ''_''"
  by (simp add: initial_queue_def)

text \<open>
  C7, amended. The level-0 frontier is exactly one configuration, with an empty left half,
  the start state, and the input string as its right half, also when the input is empty;
  the blank of an empty input is only the symbol read at the head.
\<close>

theorem initial_queue_shape:
  "\<exists>c. initial_queue start input = [[c]] \<and> fst c = [] \<and> state_of c = start \<and>
       snd (snd c) = input \<and>
       curr_symbol (snd (snd c)) = (if input = [] then ''_'' else [hd input])"
  by (simp add: initial_queue_def state_of_def curr_symbol_def)

text \<open>
  With a step bound that is not positive the loop over the levels is not entered, and the
  return after the loop hands the bound back in the place of the depth. For the bound 0
  this is the depth 0.
\<close>

lemma bfs_nonpositive_bound:
  assumes "max_steps \<le> 0"
  shows "bfs start accept reject transitions input max_steps =
           Some (Inr (False, max_steps, 0, []))"
  using assms by (simp add: bfs_def)

lemma bfs_zero_bound:
  "bfs start accept reject transitions input 0 = Some (Inr (False, 0, 0, []))"
  by (simp add: bfs_def)

text \<open>
  C8. The claim is that a zero or negative step bound gives an immediate
  Rejected-StepBound outcome at depth 0, with zero total transitions and an empty path.
  Every other return of the search gives the index of a level as the depth, and the bound
  0 gives 0, but for a negative bound the value returned as the depth is the bound
  itself: with the bound -1 the search reports the depth -1, which \<^verbatim>\<open>main\<close> prints as the
  depth of the tree of configurations.
\<close>

theorem bfs_negative_bound_depth:
  "bfs ''q0'' [''qa''] ''qr'' Map.empty ''a'' (- 1) = Some (Inr (False, - 1, 0, [])) \<and>
   (- 1 :: int) \<noteq> 0"
  by (simp add: bfs_def)

section \<open>Expansion of one configuration: claim C5\<close>

text \<open>
  C5. A configuration under expansion (its state neither accepting nor the reject state)
  whose state and head symbol have no entry in the table gets exactly one successor, the
  same two tape halves with the reject state, and the counter goes up by exactly one.
\<close>

theorem no_rule_rejects:
  assumes "state \<notin> set accept" and "state \<noteq> reject"
    and "transitions (state, curr_symbol right) = None"
  shows "expand reject transitions (left, state, right) (nxt, before, tot) =
           Inr (nxt @ [(left, reject, right)],
                before((left, reject, right) \<mapsto> (left, state, right)), tot + 1)
       \<and> scan_level accept reject transitions ((left, state, right) # rest) (nxt, before, tot) =
           scan_level accept reject transitions rest
             (nxt @ [(left, reject, right)],
              before((left, reject, right) \<mapsto> (left, state, right)), tot + 1)"
  using assms by (simp add: expand_def lookup_moves_def enqueue_def state_of_def)

theorem no_rule_rejects_witness:
  "''q0'' \<notin> set [''qa''] \<and> ''q0'' \<noteq> ''qr'' \<and>
   (Map.empty :: table) (''q0'', curr_symbol ''ab'') = None \<and>
   scan_level [''qa''] ''qr'' Map.empty [([], ''q0'', ''ab'')] ([], Map.empty, 0) =
     Inr (Completed ([([], ''qr'', ''ab'')], [([], ''qr'', ''ab'') \<mapsto> ([], ''q0'', ''ab'')], 1))"
  using no_rule_rejects [of "''q0''" "[''qa'']" "''qr''" Map.empty "''ab''" "[]" "[]" Map.empty 0 "[]"]
  by simp

section \<open>Facts about the path reconstruction\<close>

text \<open>
  The loop only appends to the path it was given, so the reversed result ends with the
  configuration the reconstruction started from. When the parent dict maps a set of
  configurations into itself, the loop started inside the set never leaves it and never
  ends.
\<close>

lemma trace_loop_inside:
  assumes closed: "\<And>t. t \<in> S \<Longrightarrow> \<exists>p\<in>S. parent t = Some p"
    and run: "trace_loop t par path = Some y"
  shows "par = parent \<longrightarrow> t \<notin> S"
proof (rule trace_loop.raw_induct [where P = "\<lambda>t par path y. par = parent \<longrightarrow> t \<notin> S", OF _ run])
  fix loop :: "config \<Rightarrow> parents \<Rightarrow> config list \<Rightarrow> config list option"
  fix t0 par0 path0 y0
  assume IH: "\<And>a b c d. loop a b c = Some d \<Longrightarrow> b = parent \<longrightarrow> a \<notin> S"
    and step: "(case par0 t0 of None \<Rightarrow> Some path0 | Some p \<Rightarrow> loop p par0 (path0 @ [p])) = Some y0"
  show "par0 = parent \<longrightarrow> t0 \<notin> S"
  proof (intro impI notI)
    assume eq: "par0 = parent" and "t0 \<in> S"
    then obtain p where p: "p \<in> S" "parent t0 = Some p" using closed by blast
    from step p(2) eq have "loop p par0 (path0 @ [p]) = Some y0" by simp
    from IH [OF this] p(1) eq show False by blast
  qed
qed

lemma trace_loop_diverges:
  assumes "\<And>t. t \<in> S \<Longrightarrow> \<exists>p\<in>S. parent t = Some p" and "t \<in> S"
  shows "trace_loop t parent path = None"
proof (cases "trace_loop t parent path")
  case None
  then show ?thesis .
next
  case (Some y)
  from trace_loop_inside [of S parent, OF assms(1) Some] assms(2) show ?thesis by blast
qed

lemma trace_loop_extends:
  assumes run: "trace_loop t par path = Some y"
  shows "\<exists>ys. y = path @ ys"
proof (rule trace_loop.raw_induct [where P = "\<lambda>t par path y. \<exists>ys. y = path @ ys", OF _ run])
  fix loop :: "config \<Rightarrow> parents \<Rightarrow> config list \<Rightarrow> config list option"
  fix t0 par0 path0 y0
  assume IH: "\<And>a b c d. loop a b c = Some d \<Longrightarrow> \<exists>ys. d = c @ ys"
    and step: "(case par0 t0 of None \<Rightarrow> Some path0 | Some p \<Rightarrow> loop p par0 (path0 @ [p])) = Some y0"
  show "\<exists>ys. y0 = path0 @ ys"
  proof (cases "par0 t0")
    case None
    with step show ?thesis by simp
  next
    case (Some p)
    with step have "loop p par0 (path0 @ [p]) = Some y0" by simp
    from IH [OF this] show ?thesis by auto
  qed
qed

lemma trace_last:
  assumes "trace c parent = Some path"
  shows "path \<noteq> [] \<and> last path = c"
proof -
  from assms obtain y where y: "trace_loop c parent [c] = Some y" "path = rev y"
    by (auto simp: trace_def)
  from trace_loop_extends [OF y(1)] obtain ys where "y = c # ys" by auto
  with y(2) show ?thesis by simp
qed

section \<open>Runs of the two machines\<close>

lemmas run_simps = bfs_def initial_queue_def state_of_def expand_def
        lookup_moves_def curr_symbol_def enqueue_def move_def shift_head_def write_cell_def

lemma cycle_run:
  "bfs ''q0'' [''qacc''] ''qrej'' cycle_table ''ab'' 3 =
     map_option (\<lambda>path. Inr (True, 2, 4, path))
       (trace (''ab'', ''qacc'', ''_'')
          [(''a'', ''q1'', ''b'') \<mapsto> ([], ''q0'', ''ab''),
           ([], ''q0'', ''ab'') \<mapsto> (''a'', ''q1'', ''b''),
           (''ab'', ''qacc'', ''_'') \<mapsto> (''a'', ''q1'', ''b''),
           (''a'', ''q1'', ''b'') \<mapsto> ([], ''q0'', ''ab'')])"
  by (simp add: run_simps cycle_table_def numeral_3_eq_3)

text \<open>
  The same machine with its accepting state also given as the reject state: the run is the
  same, since no configuration before the accepting one is in that state and every
  expanded configuration has a rule.
\<close>

lemma cycle_run_accepting_reject:
  "bfs ''q0'' [''qacc''] ''qacc'' cycle_table ''ab'' 3 =
     map_option (\<lambda>path. Inr (True, 2, 4, path))
       (trace (''ab'', ''qacc'', ''_'')
          [(''a'', ''q1'', ''b'') \<mapsto> ([], ''q0'', ''ab''),
           ([], ''q0'', ''ab'') \<mapsto> (''a'', ''q1'', ''b''),
           (''ab'', ''qacc'', ''_'') \<mapsto> (''a'', ''q1'', ''b''),
           (''a'', ''q1'', ''b'') \<mapsto> ([], ''q0'', ''ab'')])"
  by (simp add: run_simps cycle_table_def numeral_3_eq_3)

text \<open>
  In the parent dict of these runs the initial configuration and its successor point at
  each other, so the walk back from the accepting configuration never ends.
\<close>

lemma cycle_trace_diverges:
  "trace (''ab'', ''qacc'', ''_'')
     [(''a'', ''q1'', ''b'') \<mapsto> ([], ''q0'', ''ab''),
      ([], ''q0'', ''ab'') \<mapsto> (''a'', ''q1'', ''b''),
      (''ab'', ''qacc'', ''_'') \<mapsto> (''a'', ''q1'', ''b''),
      (''a'', ''q1'', ''b'') \<mapsto> ([], ''q0'', ''ab'')] = None"
proof -
  let ?A = "([], ''q0'', ''ab'') :: config"
  let ?B = "(''a'', ''q1'', ''b'') :: config"
  let ?C = "(''ab'', ''qacc'', ''_'') :: config"
  let ?par = "[?B \<mapsto> ?A, ?A \<mapsto> ?B, ?C \<mapsto> ?B, ?B \<mapsto> ?A]"
  have "trace_loop ?B ?par ([?C] @ [?B]) = None"
    by (rule trace_loop_diverges [where S = "{?A, ?B}"]) auto
  moreover have "trace_loop ?C ?par [?C] = trace_loop ?B ?par ([?C] @ [?B])"
    by (subst trace_loop.simps) simp
  ultimately show ?thesis
    by (simp add: trace_def)
qed

lemma detour_run:
  "bfs ''s'' [''acc''] ''rej'' detour_table ''ab'' 10 =
     Some (Inr (True, 2, 5,
       [([], ''s'', ''ab''), (''a'', ''z'', ''b''), ([], ''y'', ''ab''), (''a'', ''x'', ''b''),
        (''ab'', ''acc'', ''_'')]))"
  by code_simp

section \<open>Termination and length of the reconstructed path: claims C2 and C3\<close>

text \<open>
  C2. The claim is that the reconstruction always terminates because the parent dict is
  acyclic. The dict is keyed by the value of a configuration, so a machine that comes back
  to a configuration it has been in closes a cycle. On the second machine with input ab
  and a bound of 3 the initial configuration is produced again at level 2, the scan of
  level 2 finds the accepting configuration, and the walk back from it never ends: the
  search does not return.
\<close>

theorem cycle_run_diverges:
  "bfs ''q0'' [''qacc''] ''qrej'' cycle_table ''ab'' 3 = None"
  using cycle_trace_diverges by (simp add: cycle_run)

text \<open>
  C3. The claim is that the reconstructed path has depth + 1 configurations. On the first
  machine with input ab the search accepts at depth 2, and the parent of (a, x, b), first
  recorded as the initial configuration, has been overwritten by the configuration of
  level 2 that produces (a, x, b) again: the path has five configurations, not three.
\<close>

theorem detour_path_too_long:
  "bfs ''s'' [''acc''] ''rej'' detour_table ''ab'' 10 =
     Some (Inr (True, 2, 5,
       [([], ''s'', ''ab''), (''a'', ''z'', ''b''), ([], ''y'', ''ab''), (''a'', ''x'', ''b''),
        (''ab'', ''acc'', ''_'')])) \<and>
   length [([], ''s'', ''ab''), (''a'', ''z'', ''b''), ([], ''y'', ''ab''), (''a'', ''x'', ''b''),
        (''ab'', ''acc'', ''_'') :: config] \<noteq> 2 + 1"
  by (simp add: detour_run)

section \<open>The parent dict: claim C9\<close>

lemma use_moves_parents:
  "use_moves c ms (nxt, before, tot) = Inr (nxt', before', tot') \<Longrightarrow>
     \<exists>new. length new = length ms \<and> nxt' = nxt @ new \<and> tot' = tot + int (length new) \<and>
       (\<forall>k. before' k = (if k \<in> set new then Some c else before k))"
proof (induction ms arbitrary: nxt before tot)
  case Nil
  then show ?case by simp
next
  case (Cons m ms)
  obtain ns w d where m: "m = (ns, w, d)" by (cases m)
  from Cons.prems m obtain nl nr where
    mv: "move (fst c) (snd (snd c)) w d = Inr (nl, nr)"
    and rest: "use_moves c ms (nxt @ [(nl, ns, nr)], before((nl, ns, nr) \<mapsto> c), tot + 1) =
                 Inr (nxt', before', tot')"
    by (auto simp: enqueue_def split: sum.splits)
  from Cons.IH [OF rest] obtain new where new: "length new = length ms"
    "nxt' = (nxt @ [(nl, ns, nr)]) @ new" "tot' = tot + 1 + int (length new)"
    "\<forall>k. before' k = (if k \<in> set new then Some c else (before((nl, ns, nr) \<mapsto> c)) k)"
    by blast
  show ?case
  proof (intro exI [of _ "(nl, ns, nr) # new"] conjI allI)
    show "length ((nl, ns, nr) # new) = length (m # ms)" using new(1) by simp
    show "nxt' = nxt @ (nl, ns, nr) # new" using new(2) by simp
    show "tot' = tot + int (length ((nl, ns, nr) # new))" using new(3) by simp
    show "before' k = (if k \<in> set ((nl, ns, nr) # new) then Some c else before k)" for k
      using spec [OF new(4), of k] by simp
  qed
qed

text \<open>
  C9. The parent dict is keyed by the value of a configuration. Expanding a configuration
  c, from any parent dict and at any level, leaves every successor it produced with the
  parent c, whatever parent that value had before, and leaves every other key as it was:
  one link per value, the one of the most recent producer.
\<close>

theorem parent_overwritten:
  assumes "expand reject transitions c (nxt, before, tot) = Inr (nxt', before', tot')"
  shows "\<exists>new. new \<noteq> [] \<and> nxt' = nxt @ new \<and> tot' = tot + int (length new) \<and>
           (\<forall>k. before' k = (if k \<in> set new then Some c else before k))"
proof (cases "lookup_moves transitions (state_of c) (curr_symbol (snd (snd c))) = []")
  case True
  with assms have "nxt' = nxt @ [(fst c, reject, snd (snd c))]" "tot' = tot + 1"
    "before' = before((fst c, reject, snd (snd c)) \<mapsto> c)"
    by (auto simp: expand_def enqueue_def state_of_def split: prod.splits)
  then show ?thesis
    by (intro exI [of _ "[(fst c, reject, snd (snd c))]"]) simp
next
  case False
  with assms have "use_moves c (lookup_moves transitions (state_of c) (curr_symbol (snd (snd c))))
      (nxt, before, tot) = Inr (nxt', before', tot')"
    by (auto simp: expand_def state_of_def split: prod.splits)
  from use_moves_parents [OF this] False show ?thesis by fastforce
qed

theorem parent_overwritten_witness:
  "expand ''rej'' detour_table ('''', ''y'', ''ab'')
      ([], [(''a'', ''x'', ''b'') \<mapsto> ('''', ''s'', ''ab'')], 4) =
     Inr ([(''a'', ''x'', ''b'')], [(''a'', ''x'', ''b'') \<mapsto> ('''', ''y'', ''ab'')], 5)
   \<and> (\<exists>new :: config list. new \<noteq> [] \<and> [(''a'', ''x'', ''b'')] = [] @ new \<and>
        (5::int) = 4 + int (length new) \<and>
        (\<forall>k :: config. [(''a'', ''x'', ''b'') \<mapsto> ('''', ''y'', ''ab'')] k =
              (if k \<in> set new then Some (('''', ''y'', ''ab'') :: config)
               else [(''a'', ''x'', ''b'') \<mapsto> (('''', ''s'', ''ab'') :: config)] k)))"
proof -
  have run: "expand ''rej'' detour_table ('''', ''y'', ''ab'')
      ([], [(''a'', ''x'', ''b'') \<mapsto> ('''', ''s'', ''ab'')], 4) =
     Inr ([(''a'', ''x'', ''b'')], [(''a'', ''x'', ''b'') \<mapsto> ('''', ''y'', ''ab'')], 5)"
    by (simp add: run_simps detour_table_def)
  show ?thesis by (rule conjI [OF run parent_overwritten [OF run]])
qed

section \<open>Order of the checks in the scan: claim C10\<close>

lemma scan_level_append:
  "scan_level accept reject transitions (xs @ ys) st =
     (case scan_level accept reject transitions xs st of
        Inl e \<Rightarrow> Inl e
      | Inr (Accepting c b t) \<Rightarrow> Inr (Accepting c b t)
      | Inr (Completed st') \<Rightarrow> scan_level accept reject transitions ys st')"
  by (induction xs arbitrary: st) (auto split: sum.splits)

text \<open>
  The acceptance check comes before the reject-state check. A configuration c of the
  frontier whose state is accepting and is also the reject state, reached by the scan
  after the configurations before it have been processed, stops the scan as accepting and
  is not pruned; the search then hands c to the path reconstruction and answers Accepted
  at this depth when the reconstruction returns.
\<close>

lemma accept_before_reject:
  assumes "state_of c \<in> set accept" and "state_of c = reject"
    and "queue ! depth = pre @ c # rest"
    and "scan_level accept reject transitions pre ([], b0, t0) = Inr (Completed (nxt, before, tot))"
  shows "scan_level accept reject transitions (queue ! depth) ([], b0, t0) =
           Inr (Accepting c before tot)
       \<and> bfs_loop accept reject transitions max_steps (Suc n) depth queue b0 t0 =
           map_option (\<lambda>path. Inr (True, int depth, tot, path)) (trace c before)"
proof -
  have "scan_level accept reject transitions (queue ! depth) ([], b0, t0) =
          Inr (Accepting c before tot)"
    using assms by (simp add: scan_level_append)
  moreover have "queue ! depth \<noteq> []" using assms(3) by simp
  ultimately show ?thesis by simp
qed

lemma accept_before_reject_at_start:
  "''q'' \<in> set [''q''] \<and>
   bfs ''q'' [''q''] ''q'' Map.empty ''a'' 1 = Some (Inr (True, 0, 0, [('''', ''q'', ''a'')]))"
proof -
  have tr: "trace ('''', ''q'', ''a'') Map.empty = Some [('''', ''q'', ''a'')]"
    by (subst trace_def, subst trace_loop.simps) simp
  from accept_before_reject [of "('''', ''q'', ''a'')" "[''q'']" "''q''"
      "initial_queue ''q'' ''a''" 0 "[]" "[]" Map.empty Map.empty 0 "[]" Map.empty 0 1 0] tr
  show ?thesis
    by (simp add: bfs_def initial_queue_def state_of_def)
qed

text \<open>
  C10. The claim is that for every configuration whose state is both accepting and the
  reject state the search terminates with Accepted rather than pruning the configuration.
  The scan does stop at such a configuration as accepting, but the search then
  reconstructs the path, and on a cyclic parent dict that never ends. On the second
  machine with qacc as the accepting and as the reject state, input ab and a bound of 3,
  the configuration (ab, qacc, _) of level 2 is accepting and rejecting, the scan reaches
  it, and the search does not return.
\<close>

theorem accepting_reject_state_diverges:
  "state_of (''ab'', ''qacc'', ''_'') \<in> set [''qacc''] \<and>
   state_of (''ab'', ''qacc'', ''_'') = ''qacc'' \<and>
   frontier ''q0'' ''qacc'' cycle_table ''ab'' 2 =
     Inr [([], ''q0'', ''ab''), (''ab'', ''qacc'', ''_'')] \<and>
   bfs ''q0'' [''qacc''] ''qacc'' cycle_table ''ab'' 3 = None"
proof -
  have "frontier ''q0'' ''qacc'' cycle_table ''ab'' 2 =
     Inr [([], ''q0'', ''ab''), (''ab'', ''qacc'', ''_'')]"
    by code_simp
  with cycle_trace_diverges show ?thesis
    by (simp add: state_of_def cycle_run_accepting_reject)
qed

section \<open>The shallowest accepting level: claim C1\<close>

text \<open>
  What the scan appends to the next level depends neither on the parent dict nor on the
  counter nor on the accept list, as long as the scan runs through the level. The queue of
  the search is therefore the tree of configurations, level by level, and a scan that
  runs through a level has met no accepting configuration in it.
\<close>

lemma use_moves_level:
  "use_moves c ms (nxt, b, t) = Inr (nxt', b', t') \<Longrightarrow>
     \<exists>b1 t1. use_moves c ms (nxt, b0, t0) = Inr (nxt', b1, t1)"
proof (induction ms arbitrary: nxt b t b0 t0)
  case Nil
  then show ?case by simp
next
  case (Cons m ms)
  obtain ns w d where m: "m = (ns, w, d)" by (cases m)
  from Cons.prems m obtain nl nr where
    mv: "move (fst c) (snd (snd c)) w d = Inr (nl, nr)"
    and rest: "use_moves c ms (nxt @ [(nl, ns, nr)], b((nl, ns, nr) \<mapsto> c), t + 1) =
                 Inr (nxt', b', t')"
    by (auto simp: enqueue_def split: sum.splits)
  from Cons.IH [OF rest] obtain b1 t1 where
    "use_moves c ms (nxt @ [(nl, ns, nr)], b0((nl, ns, nr) \<mapsto> c), t0 + 1) = Inr (nxt', b1, t1)"
    by blast
  then have "use_moves c (m # ms) (nxt, b0, t0) = Inr (nxt', b1, t1)"
    by (simp add: m mv enqueue_def)
  then show ?case by blast
qed

lemma expand_level:
  assumes "expand reject transitions c (nxt, b, t) = Inr (nxt', b', t')"
  shows "\<exists>b1 t1. expand reject transitions c (nxt, b0, t0) = Inr (nxt', b1, t1)"
proof (cases "lookup_moves transitions (fst (snd c)) (curr_symbol (snd (snd c))) = []")
  case True
  with assms show ?thesis
    by (auto simp: expand_def enqueue_def split: prod.splits)
next
  case False
  with assms have "use_moves c (lookup_moves transitions (fst (snd c)) (curr_symbol (snd (snd c))))
      (nxt, b, t) = Inr (nxt', b', t')"
    by (auto simp: expand_def split: prod.splits)
  from use_moves_level [OF this, of b0 t0] False show ?thesis
    by (auto simp: expand_def split: prod.splits)
qed


lemma scan_level_Completed:
  "scan_level accept reject transitions fr (nxt, b, t) = Inr (Completed (nxt', b', t')) \<Longrightarrow>
     first_accepting accept fr = None \<and>
     (\<exists>b1 t1. scan_level [] reject transitions fr (nxt, b0, t0) = Inr (Completed (nxt', b1, t1)))"
proof (induction fr arbitrary: nxt b t b0 t0)
  case Nil
  then show ?case by (simp add: first_accepting_def)
next
  case (Cons c fr)
  from Cons.prems have na: "state_of c \<notin> set accept"
    by (auto split: if_splits)
  show ?case
  proof (cases "state_of c = reject")
    case True
    with na Cons.prems have "scan_level accept reject transitions fr (nxt, b, t) =
        Inr (Completed (nxt', b', t'))" by simp
    from Cons.IH [OF this, of b0 t0] na True show ?thesis
      by (simp add: first_accepting_def)
  next
    case False
    with na Cons.prems obtain nxt1 b1 t1 where
      ex: "expand reject transitions c (nxt, b, t) = Inr (nxt1, b1, t1)"
      and rest: "scan_level accept reject transitions fr (nxt1, b1, t1) =
                   Inr (Completed (nxt', b', t'))"
      by (auto split: sum.splits)
    from expand_level [OF ex, of b0 t0] obtain b2 t2 where
      ex0: "expand reject transitions c (nxt, b0, t0) = Inr (nxt1, b2, t2)" by blast
    from Cons.IH [OF rest, of b2 t2] na False ex0 show ?thesis
      by (simp add: first_accepting_def)
  qed
qed

lemma scan_level_Accepting:
  "scan_level accept reject transitions fr st = Inr (Accepting c b' t') \<Longrightarrow>
     first_accepting accept fr = Some c"
proof (induction fr arbitrary: st)
  case Nil
  then show ?case by simp
next
  case (Cons a fr)
  then show ?case
    by (auto simp: first_accepting_def split: if_splits sum.splits)
qed

lemma scan_level_next_frontier:
  assumes "scan_level accept reject transitions fr ([], b, t) = Inr (Completed (nxt', b', t'))"
  shows "first_accepting accept fr = None \<and> next_frontier reject transitions fr = Inr nxt'"
  using scan_level_Completed [OF assms, of Map.empty 0]
  by (auto simp: next_frontier_def)


lemma bfs_loop_accepted:
  assumes "bfs_loop accept reject transitions max_steps n depth queue b t =
             Some (Inr (True, d, tot, path))"
    and "length queue = Suc depth"
    and "frontier start reject transitions input depth = Inr (queue ! depth)"
    and "\<forall>j<depth. \<exists>fj. frontier start reject transitions input j = Inr fj \<and>
           first_accepting accept fj = None"
  shows "\<exists>k fr. d = int k \<and> depth \<le> k \<and> k < depth + n \<and>
           (\<forall>j<k. \<exists>fj. frontier start reject transitions input j = Inr fj \<and>
              first_accepting accept fj = None) \<and>
           frontier start reject transitions input k = Inr fr \<and>
           path \<noteq> [] \<and> first_accepting accept fr = Some (last path)"
  using assms
proof (induction n arbitrary: depth queue b t)
  case 0
  then show ?case by simp
next
  case (Suc n)
  let ?fr = "queue ! depth"
  from Suc.prems(1) have ne: "?fr \<noteq> []" by (auto split: if_splits)
  show ?case
  proof (cases "scan_level accept reject transitions ?fr ([], b, t)")
    case (Inl e)
    with Suc.prems(1) ne show ?thesis by simp
  next
    case (Inr r)
    show ?thesis
    proof (cases r)
      case (Accepting c b' t')
      with Inr Suc.prems(1) ne have tr: "trace c b' = Some path" and d: "d = int depth"
        by auto
      from scan_level_Accepting Inr Accepting have "first_accepting accept ?fr = Some c"
        by blast
      with trace_last [OF tr] have "path \<noteq> []" "first_accepting accept ?fr = Some (last path)"
        by simp_all
      with d Suc.prems(3,4) show ?thesis
        by (intro exI [of _ depth] exI [of _ ?fr]) simp
    next
      case (Completed st)
      obtain nxt b' t' where st: "st = (nxt, b', t')" by (cases st)
      from Inr Completed st have sc: "scan_level accept reject transitions ?fr ([], b, t) =
          Inr (Completed (nxt, b', t'))" by simp
      with Suc.prems(1) ne have rec: "bfs_loop accept reject transitions max_steps n (Suc depth)
          (queue @ [nxt]) b' t' = Some (Inr (True, d, tot, path))" by simp
      from scan_level_next_frontier [OF sc] have none: "first_accepting accept ?fr = None"
        and nf: "next_frontier reject transitions ?fr = Inr nxt" by simp_all
      have len: "length (queue @ [nxt]) = Suc (Suc depth)"
        using Suc.prems(2) by simp
      have nth: "(queue @ [nxt]) ! Suc depth = nxt"
        using Suc.prems(2) by (simp add: nth_append)
      have fr': "frontier start reject transitions input (Suc depth) =
          Inr ((queue @ [nxt]) ! Suc depth)"
        using Suc.prems(3) nf nth by simp
      have below: "\<forall>j<Suc depth. \<exists>fj. frontier start reject transitions input j = Inr fj \<and>
           first_accepting accept fj = None"
        using Suc.prems(3,4) none by (auto simp: less_Suc_eq)
      from Suc.IH [OF rec len fr' below] obtain k fr where
        k: "d = int k" "Suc depth \<le> k" "k < Suc depth + n"
        "\<forall>j<k. \<exists>fj. frontier start reject transitions input j = Inr fj \<and>
              first_accepting accept fj = None"
        "frontier start reject transitions input k = Inr fr"
        "path \<noteq> []" "first_accepting accept fr = Some (last path)"
        by blast
      show ?thesis
      proof (intro exI [of _ k] exI [of _ fr] conjI)
        show "d = int k" by (rule k(1))
        show "depth \<le> k" using k(2) by simp
        show "k < depth + Suc n" using k(3) by simp
        show "\<forall>j<k. \<exists>fj. frontier start reject transitions input j = Inr fj \<and>
              first_accepting accept fj = None" by (rule k(4))
        show "frontier start reject transitions input k = Inr fr" by (rule k(5))
        show "path \<noteq> []" by (rule k(6))
        show "first_accepting accept fr = Some (last path)" by (rule k(7))
      qed
    qed
  qed
qed

text \<open>
  C1. When the search with a positive step bound reports Accepted at depth d, every level
  shallower than d has been built and holds no accepting configuration, and the reported
  configuration, the last one of the path, is the first accepting configuration of level
  d in enqueue order.
\<close>

theorem bfs_accepts_shallowest_first:
  assumes "0 < max_steps"
    and "bfs start accept reject transitions input max_steps = Some (Inr (True, d, tot, path))"
  shows "\<exists>k fr. d = int k \<and> int k < max_steps \<and>
           (\<forall>j<k. \<exists>fj. frontier start reject transitions input j = Inr fj \<and>
              first_accepting accept fj = None) \<and>
           frontier start reject transitions input k = Inr fr \<and>
           path \<noteq> [] \<and> first_accepting accept fr = Some (last path)"
proof -
  have run: "bfs_loop accept reject transitions max_steps (nat max_steps) 0
      (initial_queue start input) Map.empty 0 = Some (Inr (True, d, tot, path))"
    using assms(2) by (simp add: bfs_def)
  have len: "length (initial_queue start input) = Suc 0"
    by (simp add: initial_queue_def)
  have fr0: "frontier start reject transitions input 0 = Inr (initial_queue start input ! 0)"
    by (simp add: initial_queue_def)
  have below: "\<forall>j<0::nat. \<exists>fj. frontier start reject transitions input j = Inr fj \<and>
           first_accepting accept fj = None" by simp
  from bfs_loop_accepted [OF run len fr0 below] obtain k fr where
    k: "d = int k" "k < 0 + nat max_steps"
    "\<forall>j<k. \<exists>fj. frontier start reject transitions input j = Inr fj \<and>
          first_accepting accept fj = None"
    "frontier start reject transitions input k = Inr fr"
    "path \<noteq> []" "first_accepting accept fr = Some (last path)"
    by blast
  from k(2) assms(1) have "int k < max_steps" by simp
  with k show ?thesis by blast
qed


theorem bfs_accepts_shallowest_first_witness:
  "(0::int) < 10 \<and>
   (\<exists>k fr. (2::int) = int k \<and> int k < 10 \<and>
      (\<forall>j<k. \<exists>fj. frontier ''s'' ''rej'' detour_table ''ab'' j = Inr fj \<and>
         first_accepting [''acc''] fj = None) \<and>
      frontier ''s'' ''rej'' detour_table ''ab'' k = Inr fr \<and>
      first_accepting [''acc''] fr = Some (''ab'', ''acc'', ''_''))"
  using bfs_accepts_shallowest_first [OF _ detour_run] by simp

end
